theory Spec2Isabelle
  imports Main
begin

section \<open>The worker pool of pool.go\<close>

text \<open>
  The pool is a concurrent Go program: the constructor \<open>New\<close>, one spawn loop
  (\<open>run\<close>), the workers started by \<open>newWorker\<close>, the goroutines started by
  \<open>returnTask\<close>, and the callers of \<open>Schedule\<close> and \<open>Free\<close>. It is modelled as an
  interleaving transition system: the state holds the fields of the \<open>Pool\<close> struct and one
  program counter per goroutine, and one \<open>event\<close> is one atomic step of one goroutine (a
  channel operation, a \<open>select\<close>, a \<open>WaitGroup\<close> operation, the end of a task). Which
  goroutine moves, and which ready case a \<open>select\<close> takes, is the choice of the
  schedule, a list of events; a step that cannot proceed (a blocked channel operation) is
  \<open>None\<close>. Log output (\<open>fmt.Printf\<close>) is not modelled.
\<close>

subsection \<open>Data\<close>

text \<open>Lines 9-12.\<close>

definition defaultCapacity :: int where
  "defaultCapacity = 100"

definition maxCapacity :: int where
  "maxCapacity = 10000"

text \<open>Lines 14-17; a nil error is \<open>None\<close> of \<open>error option\<close>.\<close>

datatype error = ErrNoIdleWorkerInPool | ErrWorkerPoolFreed

text \<open>
  A \<open>Task\<close> is an opaque \<open>func()\<close>. What a worker can observe of a call \<open>t()\<close> is
  whether it returns or panics; the number only tells tasks apart. A panic is one whose
  value \<open>recover()\<close> reports as not nil, which is every panic since Go 1.21. A task
  that never returns is one whose worker never takes its \<open>Worker_call\<close> step.
\<close>

datatype Task = Returns nat | Panics nat

text \<open>
  Modelled from the spec: the type \<open>Option\<close> and its constructors are not in the source
  file; section 6 of the specification recognises two options, \<open>preAllocate\<close> and
  \<open>blockOnFull\<close>, each setting the field of that name.
\<close>

datatype pool_Option = WithPreAllocWorkers bool | WithBlock bool

text \<open>Where a worker goroutine stands (lines 100-121).\<close>

datatype wpc =
    W_start          \<comment> \<open>created by the go statement, before line 109\<close>
  | W_select         \<comment> \<open>at the select of line 111\<close>
  | W_call Task      \<comment> \<open>line 116 received the task, \<open>t()\<close> of line 118 is running\<close>
  | W_exit           \<comment> \<open>case of line 112 taken, before \<open><-p.active\<close> of line 114\<close>
  | W_recover        \<comment> \<open>recover() of line 103 caught a panic, before \<open><-p.active\<close> of line 105\<close>
  | W_done           \<comment> \<open>slot given back, before \<open>p.wg.Done()\<close> of line 107\<close>
  | W_dead           \<comment> \<open>goroutine finished\<close>

text \<open>Where the spawn loop stands (lines 67-96).\<close>

datatype rpc =
    R_init           \<comment> \<open>started by line 62, before line 68\<close>
  | R_range          \<comment> \<open>receiving from \<open>p.tasks\<close>, line 72\<close>
  | R_got Task       \<comment> \<open>received a task, before \<open>returnTask\<close> of line 73\<close>
  | R_select         \<comment> \<open>at the select of line 74\<close>
  | R_spawn_range    \<comment> \<open>case of line 77 taken, before lines 78-79\<close>
  | R_loop           \<comment> \<open>at the select of line 87\<close>
  | R_spawn_loop     \<comment> \<open>case of line 90 taken, before lines 92-93\<close>
  | R_done           \<comment> \<open>returned\<close>

text \<open>A call of \<open>Schedule\<close>: blocked in the send of line 132, or returned.\<close>

datatype call = Blocked | Returned "error option"

text \<open>A call of \<open>Free\<close>: panicked in \<open>close\<close>, waiting in \<open>p.wg.Wait()\<close>, or returned.\<close>

datatype free = F_panic | F_wait | F_returned

text \<open>
  The struct of lines 21-32 and the goroutines around it. \<open>active\<close> is the number of
  elements in the buffered channel \<open>p.active\<close>, whose buffer size is the capacity (line 48);
  \<open>quit\<close> says whether \<open>p.quit\<close> is closed; \<open>wg\<close> is the counter of the
  \<open>WaitGroup\<close>. The channel \<open>p.tasks\<close> is unbuffered and holds nothing: a send on it
  completes together with a receive.
\<close>

record Pool =
  capacity :: int
  preAlloc :: bool
  block :: bool
  active :: int
  quit :: bool
  wg :: int
  workers :: "(int \<times> wpc) list"       \<comment> \<open>the argument \<open>i\<close> of \<open>newWorker\<close> and the state\<close>
  run_pc :: rpc
  idx :: int                            \<comment> \<open>the local \<open>idx\<close> of \<open>run\<close>\<close>
  returns :: "Task option list"         \<comment> \<open>the goroutines of \<open>returnTask\<close>: sending, or finished\<close>
  calls :: "(Task \<times> call) list"
  frees :: "free list"
  executed :: "Task list"               \<comment> \<open>the tasks whose call \<open>t()\<close> has ended, latest last\<close>

subsection \<open>Construction\<close>

text \<open>Lines 98-100: the counter goes up in the caller, the goroutine is created.\<close>

definition newWorker :: "int \<Rightarrow> Pool \<Rightarrow> Pool" where
  "newWorker i p = p\<lparr>wg := wg p + 1, workers := workers p @ [(i, W_start)]\<rparr>"

text \<open>\<open>p.active <- struct{}{}\<close>: proceeds while the buffer has room, blocks otherwise.\<close>

definition send_active :: "Pool \<Rightarrow> Pool option" where
  "send_active p =
     (if active p < capacity p then Some (p\<lparr>active := active p + 1\<rparr>) else None)"

text \<open>\<open><-p.active\<close>: proceeds while the buffer holds an element, blocks otherwise.\<close>

definition recv_active :: "Pool \<Rightarrow> Pool option" where
  "recv_active p = (if 0 < active p then Some (p\<lparr>active := active p - 1\<rparr>) else None)"

fun apply_Option :: "pool_Option \<Rightarrow> Pool \<Rightarrow> Pool" where
  "apply_Option (WithPreAllocWorkers b) p = p\<lparr>preAlloc := b\<rparr>"
| "apply_Option (WithBlock b) p = p\<lparr>block := b\<rparr>"

text \<open>The loop of lines 57-60; \<open>None\<close> when a send blocks, so that \<open>New\<close> would hang.\<close>

function prealloc_loop :: "int \<Rightarrow> Pool \<Rightarrow> Pool option" where
  "prealloc_loop i p =
     (if i < capacity p then
        (case send_active (newWorker (i + 1) p) of
           None \<Rightarrow> None
         | Some p' \<Rightarrow> prealloc_loop (i + 1) p')
      else Some p)"
  by pat_completeness auto
termination
  by (relation "measure (\<lambda>(i, p). nat (capacity p - i))")
     (auto simp: send_active_def newWorker_def split: if_splits)

declare prealloc_loop.simps [simp del]

text \<open>
  Lines 35-64. The spawn loop is started by the last statement (line 62) and nothing
  before it looks at the loop, so the struct is built with \<open>run_pc = R_init\<close>.
\<close>

definition New :: "int \<Rightarrow> pool_Option list \<Rightarrow> Pool option" where
  "New n opts =
     (let c = (if n \<le> 0 then defaultCapacity else n);
          c = (if c > maxCapacity then maxCapacity else c);
          p = \<lparr>capacity = c, preAlloc = False, block = True, active = 0, quit = False,
               wg = 0, workers = [], run_pc = R_init, idx = 0, returns = [], calls = [],
               frees = [], executed = []\<rparr>;
          p = fold apply_Option opts p
      in if preAlloc p then prealloc_loop 0 p else Some p)"

subsection \<open>The goroutines, step by step\<close>

text \<open>
  A worker is named by its position in \<open>workers\<close>, a blocked \<open>Schedule\<close> call by its
  position in \<open>calls\<close>, a goroutine of \<open>returnTask\<close> by its position in
  \<open>returns\<close>, a call of \<open>Free\<close> by its position in \<open>frees\<close>.
\<close>

definition worker_pc :: "Pool \<Rightarrow> nat \<Rightarrow> wpc option" where
  "worker_pc p i = (if i < length (workers p) then Some (snd (workers p ! i)) else None)"

definition set_worker :: "nat \<Rightarrow> wpc \<Rightarrow> Pool \<Rightarrow> Pool" where
  "set_worker i c p = p\<lparr>workers := (workers p)[i := (fst (workers p ! i), c)]\<rparr>"

text \<open>
  The two places that receive from \<open>p.tasks\<close>: a worker at its select (line 116) and the
  spawn loop at line 72.
\<close>

datatype receiver = To_worker nat | To_run

fun deliver :: "receiver \<Rightarrow> Task \<Rightarrow> Pool \<Rightarrow> Pool option" where
  "deliver (To_worker i) t p =
     (if worker_pc p i = Some W_select then Some (set_worker i (W_call t) p) else None)"
| "deliver To_run t p =
     (if run_pc p = R_range then Some (p\<lparr>run_pc := R_got t\<rparr>) else None)"

text \<open>
  A send on \<open>p.tasks\<close> can proceed when some receiver is ready: a goroutine that
  stands at one of the two receives. A worker that has not reached its select yet
  (\<open>W_start\<close>), or is inside a task, is not ready.
\<close>

definition receiver_ready :: "Pool \<Rightarrow> bool" where
  "receiver_ready p \<longleftrightarrow> run_pc p = R_range \<or> (\<exists>w \<in> set (workers p). snd w = W_select)"

text \<open>
  The blocked senders on \<open>p.tasks\<close>: a \<open>Schedule\<close> call in line 132 and a goroutine of
  \<open>returnTask\<close> in line 149.
\<close>

datatype sender = From_call nat | From_return nat

datatype event =
    Run_start                    \<comment> \<open>lines 68-70\<close>
  | Run_returnTask               \<comment> \<open>line 73\<close>
  | Run_quit                     \<comment> \<open>lines 75-76 and 88-89\<close>
  | Run_active                   \<comment> \<open>lines 77 and 90\<close>
  | Run_default                  \<comment> \<open>lines 80-81\<close>
  | Run_newWorker                \<comment> \<open>lines 78-79 and 92-93\<close>
  | Worker_start nat             \<comment> \<open>lines 109-110\<close>
  | Worker_quit nat              \<comment> \<open>lines 112-113\<close>
  | Worker_call nat              \<comment> \<open>line 118 ends: by returning, or by a panic caught in line 103\<close>
  | Worker_release nat           \<comment> \<open>line 114 or line 105\<close>
  | Worker_Done nat              \<comment> \<open>line 107\<close>
  | Handoff sender receiver      \<comment> \<open>the send of line 132 or 149 completes\<close>
  | Schedule_quit Task           \<comment> \<open>lines 126-127\<close>
  | Schedule_send Task receiver  \<comment> \<open>lines 128-129\<close>
  | Schedule_default Task        \<comment> \<open>lines 130-135\<close>
  | Free_close                   \<comment> \<open>line 141\<close>
  | Free_Wait nat                \<comment> \<open>line 142 returns\<close>

text \<open>Lines 67-96.\<close>

fun run :: "event \<Rightarrow> Pool \<Rightarrow> Pool option" where
  "run Run_start p =
     (if run_pc p = R_init then
        Some (p\<lparr>idx := active p, run_pc := (if \<not> preAlloc p then R_range else R_loop)\<rparr>)
      else None)"
| "run Run_returnTask p =
     (case run_pc p of
        R_got t \<Rightarrow> Some (p\<lparr>returns := returns p @ [Some t], run_pc := R_select\<rparr>)
      | _ \<Rightarrow> None)"
| "run Run_quit p =
     (if (run_pc p = R_select \<or> run_pc p = R_loop) \<and> quit p then Some (p\<lparr>run_pc := R_done\<rparr>)
      else None)"
| "run Run_active p =
     (if run_pc p = R_select then
        map_option (\<lambda>p. p\<lparr>run_pc := R_spawn_range\<rparr>) (send_active p)
      else if run_pc p = R_loop then
        map_option (\<lambda>p. p\<lparr>run_pc := R_spawn_loop\<rparr>) (send_active p)
      else None)"
| "run Run_default p =
     (if run_pc p = R_select \<and> \<not> quit p \<and> send_active p = None then
        Some (p\<lparr>run_pc := R_loop\<rparr>)
      else None)"
| "run Run_newWorker p =
     (if run_pc p = R_spawn_range then
        Some ((newWorker (idx p + 1) (p\<lparr>idx := idx p + 1\<rparr>))\<lparr>run_pc := R_range\<rparr>)
      else if run_pc p = R_spawn_loop then
        Some ((newWorker (idx p + 1) (p\<lparr>idx := idx p + 1\<rparr>))\<lparr>run_pc := R_loop\<rparr>)
      else None)"
| "run _ p = None"

text \<open>
  The goroutine of lines 100-121. A task that returns sends the worker back to the select;
  a task that panics leaves the loop for the deferred function, whose \<open>recover()\<close> is not
  nil. On the exit of line 115, \<open>recover()\<close> is nil and only \<open>p.wg.Done()\<close> runs.
\<close>

fun worker :: "event \<Rightarrow> Pool \<Rightarrow> Pool option" where
  "worker (Worker_start i) p =
     (if worker_pc p i = Some W_start then Some (set_worker i W_select p) else None)"
| "worker (Worker_quit i) p =
     (if worker_pc p i = Some W_select \<and> quit p then Some (set_worker i W_exit p) else None)"
| "worker (Worker_call i) p =
     (case worker_pc p i of
        Some (W_call (Returns k)) \<Rightarrow>
          Some (set_worker i W_select (p\<lparr>executed := executed p @ [Returns k]\<rparr>))
      | Some (W_call (Panics k)) \<Rightarrow>
          Some (set_worker i W_recover (p\<lparr>executed := executed p @ [Panics k]\<rparr>))
      | _ \<Rightarrow> None)"
| "worker (Worker_release i) p =
     (if worker_pc p i = Some W_exit \<or> worker_pc p i = Some W_recover then
        map_option (set_worker i W_done) (recv_active p)
      else None)"
| "worker (Worker_Done i) p =
     (if worker_pc p i = Some W_done then Some (set_worker i W_dead (p\<lparr>wg := wg p - 1\<rparr>))
      else None)"
| "worker _ p = None"

text \<open>
  Lines 124-137. The select of line 125 takes any case that can proceed, and the default
  only when none can. In the default, a blocking pool leaves the caller in the send of
  line 132.
\<close>

fun Schedule :: "event \<Rightarrow> Pool \<Rightarrow> Pool option" where
  "Schedule (Schedule_quit t) p =
     (if quit p then Some (p\<lparr>calls := calls p @ [(t, Returned (Some ErrWorkerPoolFreed))]\<rparr>)
      else None)"
| "Schedule (Schedule_send t r) p =
     map_option (\<lambda>p. p\<lparr>calls := calls p @ [(t, Returned None)]\<rparr>) (deliver r t p)"
| "Schedule (Schedule_default t) p =
     (if \<not> quit p \<and> \<not> receiver_ready p then
        (if block p then Some (p\<lparr>calls := calls p @ [(t, Blocked)]\<rparr>)
         else Some (p\<lparr>calls := calls p @ [(t, Returned (Some ErrNoIdleWorkerInPool))]\<rparr>))
      else None)"
| "Schedule (Handoff (From_call c) r) p =
     (if c < length (calls p) \<and> snd (calls p ! c) = Blocked then
        map_option (\<lambda>p. p\<lparr>calls := (calls p)[c := (fst (calls p ! c), Returned None)]\<rparr>)
          (deliver r (fst (calls p ! c)) p)
      else None)"
| "Schedule _ p = None"

text \<open>Lines 147-151: the goroutine ends when its send completes.\<close>

fun returnTask :: "event \<Rightarrow> Pool \<Rightarrow> Pool option" where
  "returnTask (Handoff (From_return g) r) p =
     (if g < length (returns p) then
        (case returns p ! g of
           Some t \<Rightarrow> map_option (\<lambda>p. p\<lparr>returns := (returns p)[g := None]\<rparr>) (deliver r t p)
         | None \<Rightarrow> None)
      else None)"
| "returnTask _ p = None"

text \<open>
  Lines 140-144. Closing a closed channel panics in the caller; \<open>p.wg.Wait()\<close> returns
  when the counter is zero.
\<close>

fun Free :: "event \<Rightarrow> Pool \<Rightarrow> Pool option" where
  "Free Free_close p =
     (if quit p then Some (p\<lparr>frees := frees p @ [F_panic]\<rparr>)
      else Some (p\<lparr>quit := True, frees := frees p @ [F_wait]\<rparr>))"
| "Free (Free_Wait k) p =
     (if k < length (frees p) \<and> frees p ! k = F_wait \<and> wg p = 0 then
        Some (p\<lparr>frees := (frees p)[k := F_returned]\<rparr>)
      else None)"
| "Free _ p = None"

text \<open>One step of the pool: the step of the goroutine the event belongs to.\<close>

fun step :: "event \<Rightarrow> Pool \<Rightarrow> Pool option" where
  "step Run_start p = run Run_start p"
| "step Run_returnTask p = run Run_returnTask p"
| "step Run_quit p = run Run_quit p"
| "step Run_active p = run Run_active p"
| "step Run_default p = run Run_default p"
| "step Run_newWorker p = run Run_newWorker p"
| "step (Worker_start i) p = worker (Worker_start i) p"
| "step (Worker_quit i) p = worker (Worker_quit i) p"
| "step (Worker_call i) p = worker (Worker_call i) p"
| "step (Worker_release i) p = worker (Worker_release i) p"
| "step (Worker_Done i) p = worker (Worker_Done i) p"
| "step (Handoff (From_call c) r) p = Schedule (Handoff (From_call c) r) p"
| "step (Handoff (From_return g) r) p = returnTask (Handoff (From_return g) r) p"
| "step (Schedule_quit t) p = Schedule (Schedule_quit t) p"
| "step (Schedule_send t r) p = Schedule (Schedule_send t r) p"
| "step (Schedule_default t) p = Schedule (Schedule_default t) p"
| "step Free_close p = Free Free_close p"
| "step (Free_Wait k) p = Free (Free_Wait k) p"

text \<open>A schedule, run from a state; \<open>None\<close> when one of its steps cannot proceed.\<close>

fun exec :: "event list \<Rightarrow> Pool \<Rightarrow> Pool option" where
  "exec [] p = Some p"
| "exec (e # es) p = (case step e p of None \<Rightarrow> None | Some p' \<Rightarrow> exec es p')"

subsection \<open>Slots, workers and the wait group\<close>

text \<open>
  A worker holds its slot from its creation until it has taken its element back out of
  \<open>p.active\<close> (line 114 or 105); after that only \<open>p.wg.Done()\<close> is left of it.
\<close>

fun holds_slot :: "wpc \<Rightarrow> bool" where
  "holds_slot W_done = False"
| "holds_slot W_dead = False"
| "holds_slot _ = True"

text \<open>The live workers: those that hold a slot.\<close>

definition live_workers :: "Pool \<Rightarrow> nat" where
  "live_workers p = length (filter (\<lambda>w. holds_slot (snd w)) (workers p))"

text \<open>The worker goroutines that have not finished: what \<open>p.wg\<close> counts.\<close>

definition goroutines :: "Pool \<Rightarrow> nat" where
  "goroutines p = length (filter (\<lambda>w. snd w \<noteq> W_dead) (workers p))"

text \<open>The spawn loop has taken a slot for a worker that it has not created yet.\<close>

definition spawning :: "Pool \<Rightarrow> bool" where
  "spawning p \<longleftrightarrow> run_pc p = R_spawn_range \<or> run_pc p = R_spawn_loop"

text \<open>
  Every element of \<open>p.active\<close> belongs to one live worker or to the spawn loop on its way
  to \<open>newWorker\<close>, the buffer is within its size, and the wait group counts the worker
  goroutines.
\<close>

definition slots_inv :: "Pool \<Rightarrow> bool" where
  "slots_inv p \<longleftrightarrow>
     active p = int (live_workers p) + (if spawning p then 1 else 0) \<and>
     active p \<le> capacity p \<and>
     wg p = int (goroutines p)"

subsection \<open>Executions and what the claims speak about\<close>

text \<open>A schedule run on the pool that \<open>New\<close> returns.\<close>

definition started :: "int \<Rightarrow> pool_Option list \<Rightarrow> event list \<Rightarrow> Pool option" where
  "started n opts es = (case New n opts of None \<Rightarrow> None | Some p \<Rightarrow> exec es p)"

text \<open>Worker \<open>i\<close> has given its slot back (it is past line 114 or line 105).\<close>

definition released :: "Pool \<Rightarrow> nat \<Rightarrow> bool" where
  "released p i \<longleftrightarrow> worker_pc p i = Some W_done \<or> worker_pc p i = Some W_dead"

text \<open>
  Shutdown is over for good: \<open>p.quit\<close> is closed, the spawn loop has returned and every
  worker goroutine has finished.
\<close>

definition dead_pool :: "Pool \<Rightarrow> bool" where
  "dead_pool p \<longleftrightarrow> quit p \<and> run_pc p = R_done \<and> (\<forall>w \<in> set (workers p). snd w = W_dead)"

section \<open>Facts about construction\<close>

lemma prealloc_loop_eq:
  "active p = i \<Longrightarrow> i \<le> capacity p \<Longrightarrow>
   prealloc_loop i p =
     Some (p\<lparr>active := capacity p, wg := wg p + (capacity p - i),
             workers := workers p @ map (\<lambda>k. (k, W_start)) [i + 1..capacity p]\<rparr>)"
proof (induction i p rule: prealloc_loop.induct)
  case (1 i p)
  show ?case
  proof (cases "i < capacity p")
    case True
    let ?q = "(newWorker (i + 1) p)\<lparr>active := i + 1\<rparr>"
    have s: "send_active (newWorker (i + 1) p) = Some ?q"
      using True "1.prems" by (simp add: send_active_def newWorker_def)
    have ih: "prealloc_loop (i + 1) ?q =
        Some (?q\<lparr>active := capacity ?q, wg := wg ?q + (capacity ?q - (i + 1)),
                 workers := workers ?q @ map (\<lambda>k. (k, W_start)) [i + 1 + 1..capacity ?q]\<rparr>)"
      using True by (intro "1.IH"[OF True s]) (simp_all add: newWorker_def)
    have u: "[i + 1..capacity p] = (i + 1) # [i + 1 + 1..capacity p]"
      using True by (simp add: upto_rec1)
    have "prealloc_loop i p = prealloc_loop (i + 1) ?q"
      by (subst prealloc_loop.simps) (simp only: True if_True s option.case)
    also note ih
    finally show ?thesis
      by (simp add: newWorker_def u)
  next
    case False
    with "1.prems" have "i = capacity p" by simp
    then show ?thesis
      using "1.prems" by (subst prealloc_loop.simps) simp
  qed
qed

lemma fold_apply_Option:
  "capacity (fold apply_Option opts p) = capacity p \<and>
   active (fold apply_Option opts p) = active p \<and>
   wg (fold apply_Option opts p) = wg p \<and>
   quit (fold apply_Option opts p) = quit p \<and>
   workers (fold apply_Option opts p) = workers p \<and>
   run_pc (fold apply_Option opts p) = run_pc p \<and>
   idx (fold apply_Option opts p) = idx p \<and>
   returns (fold apply_Option opts p) = returns p \<and>
   calls (fold apply_Option opts p) = calls p \<and>
   frees (fold apply_Option opts p) = frees p \<and>
   executed (fold apply_Option opts p) = executed p"
proof (induction opts arbitrary: p)
  case Nil
  show ?case by simp
next
  case (Cons a opts)
  show ?case by (cases a) (simp_all add: Cons.IH)
qed

lemma New_eq:
  "\<exists>p0. capacity p0 = (if n \<le> 0 then defaultCapacity else if maxCapacity < n then maxCapacity else n) \<and>
     active p0 = 0 \<and> wg p0 = 0 \<and> \<not> quit p0 \<and> workers p0 = [] \<and>
     run_pc p0 = R_init \<and> returns p0 = [] \<and> calls p0 = [] \<and> frees p0 = [] \<and> executed p0 = [] \<and>
     New n opts =
       Some (if preAlloc p0 then
               p0\<lparr>active := capacity p0, wg := capacity p0,
                  workers := map (\<lambda>k. (k, W_start)) [1..capacity p0]\<rparr>
             else p0)"
proof -
  let ?c = "if n \<le> 0 then defaultCapacity else if maxCapacity < n then maxCapacity else n"
  let ?p = "fold apply_Option opts \<lparr>capacity = ?c, preAlloc = False, block = True, active = 0,
               quit = False, wg = 0, workers = [], run_pc = R_init, idx = 0, returns = [],
               calls = [], frees = [], executed = []\<rparr>"
  have c: "0 \<le> capacity ?p"
    by (simp add: fold_apply_Option defaultCapacity_def maxCapacity_def)
  have n: "New n opts = (if preAlloc ?p then prealloc_loop 0 ?p else Some ?p)"
    by (simp add: New_def Let_def defaultCapacity_def maxCapacity_def)
  have l: "prealloc_loop 0 ?p = Some (?p\<lparr>active := capacity ?p, wg := capacity ?p,
                  workers := map (\<lambda>k. (k, W_start)) [1..capacity ?p]\<rparr>)"
    using prealloc_loop_eq[of ?p 0] c by (simp add: fold_apply_Option)
  show ?thesis
    apply (rule exI[of _ ?p])
    apply (simp only: n l)
    apply (simp add: fold_apply_Option)
    done
qed

lemma New_fields:
  assumes "New n opts = Some p"
  shows "capacity p = (if n \<le> 0 then defaultCapacity else if maxCapacity < n then maxCapacity else n)"
    and "workers p = (if preAlloc p then map (\<lambda>k. (k, W_start)) [1..capacity p] else [])"
    and "active p = (if preAlloc p then capacity p else 0)"
    and "wg p = (if preAlloc p then capacity p else 0)"
    and "\<not> quit p" and "run_pc p = R_init" and "returns p = []" and "calls p = []"
    and "frees p = []" and "executed p = []"
proof -
  from New_eq[of n opts] obtain p0 where
    c: "capacity p0 = (if n \<le> 0 then defaultCapacity else if maxCapacity < n then maxCapacity else n)"
    and z: "active p0 = 0" "wg p0 = 0" "\<not> quit p0" "workers p0 = []" "run_pc p0 = R_init"
      "returns p0 = []" "calls p0 = []" "frees p0 = []" "executed p0 = []"
    and n: "New n opts =
       Some (if preAlloc p0 then
               p0\<lparr>active := capacity p0, wg := capacity p0,
                  workers := map (\<lambda>k. (k, W_start)) [1..capacity p0]\<rparr>
             else p0)"
    by blast
  show "capacity p = (if n \<le> 0 then defaultCapacity else if maxCapacity < n then maxCapacity else n)"
    using assms n c by (cases "preAlloc p0") auto
  show "workers p = (if preAlloc p then map (\<lambda>k. (k, W_start)) [1..capacity p] else [])"
    using assms n z by (cases "preAlloc p0") auto
  show "active p = (if preAlloc p then capacity p else 0)"
    using assms n z by (cases "preAlloc p0") auto
  show "wg p = (if preAlloc p then capacity p else 0)"
    using assms n z by (cases "preAlloc p0") auto
  show "\<not> quit p" using assms n z by (cases "preAlloc p0") auto
  show "run_pc p = R_init" using assms n z by (cases "preAlloc p0") auto
  show "returns p = []" using assms n z by (cases "preAlloc p0") auto
  show "calls p = []" using assms n z by (cases "preAlloc p0") auto
  show "frees p = []" using assms n z by (cases "preAlloc p0") auto
  show "executed p = []" using assms n z by (cases "preAlloc p0") auto
qed

lemma New_capacity_pos: "New n opts = Some p \<Longrightarrow> 1 \<le> capacity p"
  by (drule New_fields(1)) (simp add: defaultCapacity_def maxCapacity_def)

section \<open>The slot invariant\<close>

lemma count_update_nat:
  "i < length ws \<Longrightarrow>
   length (filter P (ws[i := x])) + (if P (ws ! i) then 1 else 0) =
     length (filter P ws) + (if P x then 1 else 0)"
proof (induction ws arbitrary: i)
  case Nil
  then show ?case by simp
next
  case (Cons a ws)
  show ?case
  proof (cases i)
    case 0
    then show ?thesis by simp
  next
    case (Suc j)
    with Cons.prems have "j < length ws" by simp
    from Cons.IH[OF this] Suc show ?thesis by simp
  qed
qed

lemma count_update:
  "i < length ws \<Longrightarrow>
   int (length (filter P (ws[i := x]))) =
     int (length (filter P ws)) - (if P (ws ! i) then 1 else 0) + (if P x then 1 else 0)"
  using count_update_nat[of i ws P x] by (simp split: if_splits)

lemma worker_pc_Some:
  "worker_pc p i = Some c \<Longrightarrow> i < length (workers p) \<and> snd (workers p ! i) = c"
  by (auto simp: worker_pc_def split: if_splits)

lemma live_set_worker:
  "worker_pc p i = Some c \<Longrightarrow>
   int (live_workers (set_worker i c' p)) =
     int (live_workers p) - (if holds_slot c then 1 else 0) + (if holds_slot c' then 1 else 0)"
  by (drule worker_pc_Some) (simp add: live_workers_def set_worker_def count_update)

lemma goroutines_set_worker:
  "worker_pc p i = Some c \<Longrightarrow>
   int (goroutines (set_worker i c' p)) =
     int (goroutines p) - (if c \<noteq> W_dead then 1 else 0) + (if c' \<noteq> W_dead then 1 else 0)"
  by (drule worker_pc_Some) (simp add: goroutines_def set_worker_def count_update)

lemma set_worker_fields [simp]:
  "active (set_worker i c p) = active p"
  "capacity (set_worker i c p) = capacity p"
  "wg (set_worker i c p) = wg p"
  "quit (set_worker i c p) = quit p"
  "run_pc (set_worker i c p) = run_pc p"
  "calls (set_worker i c p) = calls p"
  "frees (set_worker i c p) = frees p"
  "returns (set_worker i c p) = returns p"
  "executed (set_worker i c p) = executed p"
  "preAlloc (set_worker i c p) = preAlloc p"
  "block (set_worker i c p) = block p"
  "idx (set_worker i c p) = idx p"
  "length (workers (set_worker i c p)) = length (workers p)"
  by (simp_all add: set_worker_def)

lemma spawning_set_worker [simp]: "spawning (set_worker i c p) = spawning p"
  by (simp add: spawning_def)

lemma slots_inv_set_worker:
  "slots_inv p \<Longrightarrow> worker_pc p i = Some c \<Longrightarrow> holds_slot c \<Longrightarrow> holds_slot c' \<Longrightarrow>
   slots_inv (set_worker i c' p)"
  unfolding slots_inv_def
  by (frule live_set_worker[where c' = c'], frule goroutines_set_worker[where c' = c'])
     (cases c; cases c'; simp)

lemma slots_inv_deliver:
  "slots_inv p \<Longrightarrow> deliver r t p = Some p' \<Longrightarrow> slots_inv p'"
proof (cases r)
  case (To_worker i)
  assume a: "slots_inv p" "deliver r t p = Some p'"
  with To_worker have w: "worker_pc p i = Some W_select" and p': "p' = set_worker i (W_call t) p"
    by (auto split: if_splits)
  show ?thesis unfolding p' by (rule slots_inv_set_worker[OF a(1) w]) simp_all
next
  case To_run
  assume a: "slots_inv p" "deliver r t p = Some p'"
  with To_run show ?thesis
    by (auto simp: slots_inv_def spawning_def live_workers_def goroutines_def split: if_splits)
qed

lemma slots_inv_run: "slots_inv p \<Longrightarrow> run e p = Some p' \<Longrightarrow> slots_inv p'"
  by (cases e)
     (auto simp: slots_inv_def spawning_def live_workers_def goroutines_def send_active_def
        newWorker_def split: if_splits rpc.splits)

lemma slots_inv_worker: "slots_inv p \<Longrightarrow> worker e p = Some p' \<Longrightarrow> slots_inv p'"
proof (cases e)
  case (Worker_start i)
  assume a: "slots_inv p" "worker e p = Some p'"
  with Worker_start show ?thesis
    by (auto split: if_splits intro: slots_inv_set_worker)
next
  case (Worker_quit i)
  assume a: "slots_inv p" "worker e p = Some p'"
  with Worker_quit show ?thesis
    by (auto split: if_splits intro: slots_inv_set_worker)
next
  case (Worker_call i)
  assume a: "slots_inv p" "worker e p = Some p'"
  have x: "\<And>q. slots_inv (q\<lparr>executed := executed q @ [t]\<rparr>) = slots_inv q" for t
    by (simp add: slots_inv_def spawning_def live_workers_def goroutines_def)
  have y: "\<And>q j. worker_pc (q\<lparr>executed := executed q @ [t]\<rparr>) j = worker_pc q j" for t
    by (simp add: worker_pc_def)
  from a Worker_call show ?thesis
    by (auto split: option.splits wpc.splits Task.splits
        intro!: slots_inv_set_worker[where c = "W_call t" for t] simp: x y)
next
  case (Worker_release i)
  assume a: "slots_inv p" "worker e p = Some p'"
  from a(2) Worker_release obtain c where c: "worker_pc p i = Some c" "c = W_exit \<or> c = W_recover"
    and p': "p' = set_worker i W_done (p\<lparr>active := active p - 1\<rparr>)" and pos: "0 < active p"
    by (auto simp: recv_active_def split: if_splits)
  have c': "worker_pc (p\<lparr>active := active p - 1\<rparr>) i = Some c"
    using c(1) by (simp add: worker_pc_def split: if_splits)
  from live_set_worker[OF c', of W_done] goroutines_set_worker[OF c', of W_done] a(1) c(2)
  show ?thesis
    unfolding p' by (auto simp: slots_inv_def live_workers_def goroutines_def spawning_def)
next
  case (Worker_Done i)
  assume a: "slots_inv p" "worker e p = Some p'"
  from a(2) Worker_Done have c: "worker_pc p i = Some W_done"
    and p': "p' = set_worker i W_dead (p\<lparr>wg := wg p - 1\<rparr>)"
    by (auto split: if_splits)
  have c': "worker_pc (p\<lparr>wg := wg p - 1\<rparr>) i = Some W_done"
    using c by (simp add: worker_pc_def split: if_splits)
  from live_set_worker[OF c', of W_dead] goroutines_set_worker[OF c', of W_dead] a(1)
  show ?thesis
    unfolding p' by (auto simp: slots_inv_def live_workers_def goroutines_def spawning_def)
qed simp_all

lemma slots_inv_calls [simp]: "slots_inv (p\<lparr>calls := x\<rparr>) = slots_inv p"
  by (simp add: slots_inv_def spawning_def live_workers_def goroutines_def)

lemma slots_inv_returns [simp]: "slots_inv (p\<lparr>returns := x\<rparr>) = slots_inv p"
  by (simp add: slots_inv_def spawning_def live_workers_def goroutines_def)

lemma slots_inv_frees [simp]: "slots_inv (p\<lparr>frees := x\<rparr>) = slots_inv p"
  by (simp add: slots_inv_def spawning_def live_workers_def goroutines_def)

lemma slots_inv_quit [simp]: "slots_inv (p\<lparr>quit := x\<rparr>) = slots_inv p"
  by (simp add: slots_inv_def spawning_def live_workers_def goroutines_def)

lemma slots_inv_Schedule: "slots_inv p \<Longrightarrow> Schedule e p = Some p' \<Longrightarrow> slots_inv p'"
proof (cases e)
  case (Handoff s r)
  assume a: "slots_inv p" "Schedule e p = Some p'"
  with Handoff show ?thesis
    by (cases s) (auto split: if_splits dest: slots_inv_deliver)
qed (auto split: if_splits dest: slots_inv_deliver)

lemma slots_inv_returnTask: "slots_inv p \<Longrightarrow> returnTask e p = Some p' \<Longrightarrow> slots_inv p'"
proof (cases e)
  case (Handoff s r)
  assume a: "slots_inv p" "returnTask e p = Some p'"
  with Handoff show ?thesis
    by (cases s) (auto split: if_splits option.splits dest: slots_inv_deliver)
qed simp_all

lemma slots_inv_Free: "slots_inv p \<Longrightarrow> Free e p = Some p' \<Longrightarrow> slots_inv p'"
  by (cases e) (auto split: if_splits)

lemma step_cases:
  "step e p = Some p' \<Longrightarrow>
   run e p = Some p' \<or> worker e p = Some p' \<or> Schedule e p = Some p' \<or>
   returnTask e p = Some p' \<or> Free e p = Some p'"
proof (cases e)
  case (Handoff s r)
  assume "step e p = Some p'"
  with Handoff show ?thesis by (cases s) (simp_all only: step.simps simp_thms)
qed (simp_all only: step.simps simp_thms)

lemma slots_inv_step: "slots_inv p \<Longrightarrow> step e p = Some p' \<Longrightarrow> slots_inv p'"
  using step_cases[of e p p']
  by (blast intro: slots_inv_run slots_inv_worker slots_inv_Schedule slots_inv_returnTask
      slots_inv_Free)

lemma slots_inv_exec: "slots_inv p \<Longrightarrow> exec es p = Some p' \<Longrightarrow> slots_inv p'"
proof (induction es arbitrary: p)
  case Nil
  then show ?case by simp
next
  case (Cons e es)
  then show ?case by (auto split: option.splits dest: slots_inv_step)
qed

lemma slots_inv_New: "New n opts = Some p \<Longrightarrow> slots_inv p"
proof -
  assume a: "New n opts = Some p"
  have f: "filter (\<lambda>w. holds_slot (snd w)) (map (\<lambda>k. (k, W_start)) xs) = map (\<lambda>k. (k, W_start)) xs"
    for xs :: "int list"
    by (induction xs) simp_all
  have g: "filter (\<lambda>w. snd w \<noteq> W_dead) (map (\<lambda>k. (k, W_start)) xs) = map (\<lambda>k. (k, W_start)) xs"
    for xs :: "int list"
    by (induction xs) simp_all
  from New_capacity_pos[OF a] New_fields[OF a] show ?thesis
    by (simp add: slots_inv_def live_workers_def goroutines_def spawning_def f g)
qed

section \<open>Frame facts\<close>

lemmas pool_defs =
  New_def defaultCapacity_def maxCapacity_def send_active_def recv_active_def newWorker_def
  worker_pc_def set_worker_def receiver_ready_def

lemma New_returns: "\<exists>p. New n opts = Some p"
  using New_eq[of n opts] by blast

lemma deliver_frame:
  assumes "deliver r t p = Some p'"
  shows "capacity p' = capacity p" and "active p' = active p" and "wg p' = wg p"
    and "quit p' = quit p" and "calls p' = calls p" and "frees p' = frees p"
    and "returns p' = returns p" and "executed p' = executed p"
    and "preAlloc p' = preAlloc p" and "block p' = block p"
    and "length (workers p') = length (workers p)"
  using assms by (cases r; auto split: if_splits)+

lemma capacity_step: "step e p = Some p' \<Longrightarrow> capacity p' = capacity p"
proof -
  assume s: "step e p = Some p'"
  have r: "run e p = Some p' \<Longrightarrow> capacity p' = capacity p"
    by (cases e) (auto simp: send_active_def newWorker_def split: if_splits rpc.splits)
  have w: "worker e p = Some p' \<Longrightarrow> capacity p' = capacity p"
    by (cases e)
       (auto simp: recv_active_def split: if_splits option.splits wpc.splits Task.splits)
  have c: "Schedule e p = Some p' \<Longrightarrow> capacity p' = capacity p"
  proof (cases e)
    case (Handoff s r)
    assume "Schedule e p = Some p'"
    with Handoff show ?thesis by (cases s) (auto split: if_splits dest: deliver_frame(1))
  qed (auto split: if_splits dest: deliver_frame(1))
  have t: "returnTask e p = Some p' \<Longrightarrow> capacity p' = capacity p"
  proof (cases e)
    case (Handoff s r)
    assume "returnTask e p = Some p'"
    with Handoff show ?thesis
      by (cases s) (auto split: if_splits option.splits dest: deliver_frame(1))
  qed simp_all
  have f: "Free e p = Some p' \<Longrightarrow> capacity p' = capacity p"
    by (cases e) (auto split: if_splits)
  from step_cases[OF s] r w c t f show ?thesis by blast
qed

lemma capacity_exec: "exec es p = Some p' \<Longrightarrow> capacity p' = capacity p"
proof (induction es arbitrary: p)
  case Nil
  then show ?case by simp
next
  case (Cons e es)
  then show ?case by (auto split: option.splits dest: capacity_step)
qed

section \<open>Released slots\<close>

lemma worker_pc_set_worker:
  "worker_pc (set_worker j c p) i =
     (if i = j \<and> j < length (workers p) then Some c else worker_pc p i)"
  by (simp add: worker_pc_def set_worker_def)

lemma worker_pc_upd [simp]:
  "worker_pc (p\<lparr>active := a\<rparr>) i = worker_pc p i"
  "worker_pc (p\<lparr>wg := g\<rparr>) i = worker_pc p i"
  "worker_pc (p\<lparr>executed := x\<rparr>) i = worker_pc p i"
  "worker_pc (p\<lparr>calls := cs\<rparr>) i = worker_pc p i"
  "worker_pc (p\<lparr>returns := rs\<rparr>) i = worker_pc p i"
  "worker_pc (p\<lparr>frees := fs\<rparr>) i = worker_pc p i"
  "worker_pc (p\<lparr>quit := q\<rparr>) i = worker_pc p i"
  "worker_pc (p\<lparr>run_pc := r\<rparr>) i = worker_pc p i"
  "worker_pc (p\<lparr>idx := k\<rparr>) i = worker_pc p i"
  by (simp_all add: worker_pc_def)

lemma worker_pc_newWorker:
  "worker_pc (newWorker k p) i =
     (if i = length (workers p) then Some W_start else worker_pc p i)"
  by (simp add: worker_pc_def newWorker_def nth_append)

lemma released_deliver: "deliver r t p = Some p' \<Longrightarrow> released p' i = released p i"
  by (cases r) (auto simp: released_def worker_pc_set_worker split: if_splits)

lemma released_run: "run e p = Some p' \<Longrightarrow> released p' i = released p i"
  by (cases e)
     (auto simp: released_def send_active_def worker_pc_newWorker worker_pc_def[of p "length (workers p)"]
        split: if_splits rpc.splits)

lemma released_worker:
  "worker e p = Some p' \<Longrightarrow>
   released p' i = (released p i \<or> e = Worker_release i) \<and>
   (e = Worker_release i \<longrightarrow> \<not> released p i)"
  by (cases e)
     (auto simp: released_def recv_active_def worker_pc_set_worker
        split: if_splits option.splits wpc.splits Task.splits
        dest: worker_pc_Some)

lemma released_Schedule: "Schedule e p = Some p' \<Longrightarrow> released p' i = released p i"
proof (cases e)
  case (Handoff s r)
  assume "Schedule e p = Some p'"
  with Handoff show ?thesis
    by (cases s) (auto simp: released_def split: if_splits dest: released_deliver[where i = i])
qed (auto simp: released_def split: if_splits dest: released_deliver[where i = i])

lemma released_returnTask: "returnTask e p = Some p' \<Longrightarrow> released p' i = released p i"
proof (cases e)
  case (Handoff s r)
  assume "returnTask e p = Some p'"
  with Handoff show ?thesis
    by (cases s)
       (auto simp: released_def split: if_splits option.splits dest: released_deliver[where i = i])
qed simp_all

lemma released_Free: "Free e p = Some p' \<Longrightarrow> released p' i = released p i"
  by (cases e) (auto simp: released_def split: if_splits)

lemma not_release:
  "run e p = Some p' \<or> Schedule e p = Some p' \<or> returnTask e p = Some p' \<or> Free e p = Some p'
   \<Longrightarrow> e \<noteq> Worker_release i"
  by (cases e) auto

lemma released_step:
  assumes "step e p = Some p'"
  shows "released p' i = (released p i \<or> e = Worker_release i)"
    and "e = Worker_release i \<Longrightarrow> \<not> released p i"
proof -
  from step_cases[OF assms]
  consider "run e p = Some p'" | "worker e p = Some p'" | "Schedule e p = Some p'"
    | "returnTask e p = Some p'" | "Free e p = Some p'" by blast
  then have "released p' i = (released p i \<or> e = Worker_release i) \<and>
    (e = Worker_release i \<longrightarrow> \<not> released p i)"
  proof cases
    case 1 with released_run[OF 1, of i] not_release[of e p p' i] show ?thesis by blast
  next
    case 2 with released_worker[OF 2, of i] show ?thesis by blast
  next
    case 3 with released_Schedule[OF 3, of i] not_release[of e p p' i] show ?thesis by blast
  next
    case 4 with released_returnTask[OF 4, of i] not_release[of e p p' i] show ?thesis by blast
  next
    case 5 with released_Free[OF 5, of i] not_release[of e p p' i] show ?thesis by blast
  qed
  then show "released p' i = (released p i \<or> e = Worker_release i)"
    and "e = Worker_release i \<Longrightarrow> \<not> released p i" by blast+
qed

lemma released_exec:
  "exec es p = Some p' \<Longrightarrow>
   count_list es (Worker_release i) + (if released p i then 1 else 0) =
     (if released p' i then 1 else 0)"
proof (induction es arbitrary: p)
  case Nil
  then show ?case by simp
next
  case (Cons e es)
  from Cons.prems obtain q where s: "step e p = Some q" and r: "exec es q = Some p'"
    by (auto split: option.splits)
  from Cons.IH[OF r] released_step[OF s, of i] show ?case
    by (auto split: if_splits)
qed

lemma live_workers_pos:
  "worker_pc p i = Some c \<Longrightarrow> holds_slot c \<Longrightarrow> 0 < live_workers p"
proof -
  assume a: "worker_pc p i = Some c" "holds_slot c"
  from worker_pc_Some[OF a(1)] a(2)
  have "workers p ! i \<in> set (filter (\<lambda>w. holds_slot (snd w)) (workers p))" by simp
  then show ?thesis
    unfolding live_workers_def by (rule length_pos_if_in_set)
qed

lemma goroutines_pos:
  "worker_pc p i = Some c \<Longrightarrow> c \<noteq> W_dead \<Longrightarrow> 0 < goroutines p"
proof -
  assume a: "worker_pc p i = Some c" "c \<noteq> W_dead"
  from worker_pc_Some[OF a(1)] a(2)
  have "workers p ! i \<in> set (filter (\<lambda>w. snd w \<noteq> W_dead) (workers p))" by simp
  then show ?thesis
    unfolding goroutines_def by (rule length_pos_if_in_set)
qed

lemma New_not_released: "New n opts = Some p \<Longrightarrow> \<not> released p i"
  by (drule New_fields(2)) (auto simp: released_def worker_pc_def split: if_splits)

section \<open>Calls of Schedule\<close>

lemma calls_step:
  assumes "step e p = Some p'" and "c < length (calls p)"
  shows "length (calls p) \<le> length (calls p')"
    and "(\<exists>r. e = Handoff (From_call c) r) \<Longrightarrow>
           snd (calls p ! c) = Blocked \<and> calls p' ! c = (fst (calls p ! c), Returned None)"
    and "\<not> (\<exists>r. e = Handoff (From_call c) r) \<Longrightarrow> calls p' ! c = calls p ! c"
proof -
  have r: "run e p = Some p' \<Longrightarrow> calls p' = calls p"
    by (cases e) (auto simp: send_active_def newWorker_def split: if_splits rpc.splits)
  have w: "worker e p = Some p' \<Longrightarrow> calls p' = calls p"
    by (cases e)
       (auto simp: recv_active_def split: if_splits option.splits wpc.splits Task.splits)
  have t: "returnTask e p = Some p' \<Longrightarrow> calls p' = calls p"
  proof (cases e)
    case (Handoff s r)
    assume "returnTask e p = Some p'"
    with Handoff show ?thesis
      by (cases s) (auto split: if_splits option.splits dest: deliver_frame(5))
  qed simp_all
  have f: "Free e p = Some p' \<Longrightarrow> calls p' = calls p"
    by (cases e) (auto split: if_splits)
  have n: "run e p = Some p' \<or> worker e p = Some p' \<or> returnTask e p = Some p' \<or> Free e p = Some p'
    \<Longrightarrow> \<not> (\<exists>r. e = Handoff (From_call c) r)"
    by (cases e) auto
  have s: "Schedule e p = Some p' \<Longrightarrow>
     length (calls p) \<le> length (calls p') \<and>
     ((\<exists>r. e = Handoff (From_call c) r) \<longrightarrow>
           snd (calls p ! c) = Blocked \<and> calls p' ! c = (fst (calls p ! c), Returned None)) \<and>
     (\<not> (\<exists>r. e = Handoff (From_call c) r) \<longrightarrow> calls p' ! c = calls p ! c)"
  proof (cases e)
    case (Handoff s r)
    assume "Schedule e p = Some p'"
    with Handoff assms(2) show ?thesis
      by (cases s) (auto split: if_splits dest: deliver_frame(5) simp: nth_list_update)
  qed (use assms(2) in \<open>auto split: if_splits dest: deliver_frame(5) simp: nth_append\<close>)
  from step_cases[OF assms(1)] r w t f n s
  have "length (calls p) \<le> length (calls p') \<and>
     ((\<exists>r. e = Handoff (From_call c) r) \<longrightarrow>
           snd (calls p ! c) = Blocked \<and> calls p' ! c = (fst (calls p ! c), Returned None)) \<and>
     (\<not> (\<exists>r. e = Handoff (From_call c) r) \<longrightarrow> calls p' ! c = calls p ! c)"
    by (elim disjE) simp_all
  then show "length (calls p) \<le> length (calls p')"
    and "(\<exists>r. e = Handoff (From_call c) r) \<Longrightarrow>
           snd (calls p ! c) = Blocked \<and> calls p' ! c = (fst (calls p ! c), Returned None)"
    and "\<not> (\<exists>r. e = Handoff (From_call c) r) \<Longrightarrow> calls p' ! c = calls p ! c"
    by blast+
qed

lemma returned_exec:
  "exec es p = Some p' \<Longrightarrow> c < length (calls p) \<Longrightarrow> snd (calls p ! c) = Returned x \<Longrightarrow>
   c < length (calls p') \<and> calls p' ! c = calls p ! c"
proof (induction es arbitrary: p)
  case Nil
  then show ?case by simp
next
  case (Cons e es)
  from Cons.prems obtain q where s: "step e p = Some q" and r: "exec es q = Some p'"
    by (auto split: option.splits)
  note cs = calls_step[OF s Cons.prems(2)]
  have nh: "\<not> (\<exists>r. e = Handoff (From_call c) r)"
    using cs(2) Cons.prems(3) by auto
  have q: "c < length (calls q)" "calls q ! c = calls p ! c"
    using cs(1) cs(3)[OF nh] Cons.prems(2) by auto
  from Cons.IH[OF r q(1)] q(2) Cons.prems(3) show ?case by simp
qed

lemma blocked_exec:
  "exec es p = Some p' \<Longrightarrow> c < length (calls p) \<Longrightarrow> snd (calls p ! c) = Blocked \<Longrightarrow>
   c < length (calls p') \<and>
   calls p' ! c =
     (fst (calls p ! c),
      if \<exists>r. Handoff (From_call c) r \<in> set es then Returned None else Blocked)"
proof (induction es arbitrary: p)
  case Nil
  then show ?case by (simp add: prod_eq_iff)
next
  case (Cons e es)
  from Cons.prems obtain q where s: "step e p = Some q" and r: "exec es q = Some p'"
    by (auto split: option.splits)
  note cs = calls_step[OF s Cons.prems(2)]
  show ?case
  proof (cases "\<exists>r. e = Handoff (From_call c) r")
    case True
    from cs(1) cs(2)[OF True] Cons.prems(2)
    have q: "c < length (calls q)" "calls q ! c = (fst (calls p ! c), Returned None)" by auto
    from returned_exec[OF r q(1), of None] q(2) True show ?thesis by auto
  next
    case False
    from cs(1) cs(3)[OF False] Cons.prems(2,3)
    have q: "c < length (calls q)" "calls q ! c = calls p ! c" "snd (calls q ! c) = Blocked"
      by auto
    from Cons.IH[OF r q(1) q(3)] q(2) False show ?thesis by auto
  qed
qed



section \<open>After shutdown\<close>

lemma dead_pool_deliver: "dead_pool p \<Longrightarrow> deliver r t p = None"
  by (cases r) (auto simp: dead_pool_def worker_pc_def)

lemma dead_pool_step:
  assumes "dead_pool p" and "step e p = Some p'"
  shows "dead_pool p' \<and> executed p' = executed p \<and> returns p' = returns p \<and>
         workers p' = workers p \<and> (\<forall>r c. e \<noteq> Handoff (From_call c) r)"
proof -
  have r: "run e p = None"
    using assms(1) by (cases e) (auto simp: dead_pool_def)
  have w: "worker e p = None"
    using assms(1)
    by (cases e) (auto simp: dead_pool_def worker_pc_def recv_active_def split: option.splits wpc.splits Task.splits)
  have t: "returnTask e p = None"
  proof (cases e)
    case (Handoff s r)
    then show ?thesis
      by (cases s) (auto simp: dead_pool_deliver[OF assms(1)] split: option.splits)
  qed simp_all
  have s: "Schedule e p = Some p' \<Longrightarrow> ?thesis"
  proof (cases e)
    case (Handoff s r)
    assume "Schedule e p = Some p'"
    with Handoff show ?thesis
      by (cases s) (auto simp: dead_pool_deliver[OF assms(1)] split: if_splits)
  qed (use assms(1) in \<open>auto simp: dead_pool_deliver dead_pool_def split: if_splits\<close>)
  have f: "Free e p = Some p' \<Longrightarrow> ?thesis"
    using assms(1) by (cases e) (auto simp: dead_pool_def split: if_splits)
  from step_cases[OF assms(2)] r w t s f show ?thesis by auto
qed

lemma dead_pool_exec:
  "dead_pool p \<Longrightarrow> exec es p = Some p' \<Longrightarrow>
   dead_pool p' \<and> executed p' = executed p \<and> returns p' = returns p \<and>
   workers p' = workers p \<and> (\<forall>r c. Handoff (From_call c) r \<notin> set es)"
proof (induction es arbitrary: p)
  case Nil
  then show ?case by simp
next
  case (Cons e es)
  from Cons.prems obtain q where s: "step e p = Some q" and r: "exec es q = Some p'"
    by (auto split: option.splits)
  from dead_pool_step[OF Cons.prems(1) s] Cons.IH[OF _ r] show ?case by auto
qed

lemma quit_step:
  assumes "step e p = Some p'"
  shows "quit p \<Longrightarrow> quit p'" and "frees p \<noteq> [] \<longrightarrow> quit p \<Longrightarrow> frees p' \<noteq> [] \<longrightarrow> quit p'"
proof -
  have r: "run e p = Some p' \<Longrightarrow> quit p' = quit p \<and> frees p' = frees p"
    by (cases e) (auto simp: send_active_def newWorker_def split: if_splits rpc.splits)
  have w: "worker e p = Some p' \<Longrightarrow> quit p' = quit p \<and> frees p' = frees p"
    by (cases e)
       (auto simp: recv_active_def split: if_splits option.splits wpc.splits Task.splits)
  have t: "returnTask e p = Some p' \<Longrightarrow> quit p' = quit p \<and> frees p' = frees p"
  proof (cases e)
    case (Handoff s r)
    assume "returnTask e p = Some p'"
    with Handoff show ?thesis
      by (cases s) (auto split: if_splits option.splits dest: deliver_frame(4,6))
  qed simp_all
  have s: "Schedule e p = Some p' \<Longrightarrow> quit p' = quit p \<and> frees p' = frees p"
  proof (cases e)
    case (Handoff s r)
    assume "Schedule e p = Some p'"
    with Handoff show ?thesis
      by (cases s) (auto split: if_splits dest: deliver_frame(4,6))
  qed (auto split: if_splits dest: deliver_frame(4,6))
  have f: "Free e p = Some p' \<Longrightarrow> (quit p \<longrightarrow> quit p') \<and> ((frees p \<noteq> [] \<longrightarrow> quit p) \<longrightarrow> frees p' \<noteq> [] \<longrightarrow> quit p')"
    by (cases e) (auto split: if_splits)
  from step_cases[OF assms] r w t s f
  have "(quit p \<longrightarrow> quit p') \<and> ((frees p \<noteq> [] \<longrightarrow> quit p) \<longrightarrow> frees p' \<noteq> [] \<longrightarrow> quit p')"
    by (elim disjE) simp_all
  then show "quit p \<Longrightarrow> quit p'" and "frees p \<noteq> [] \<longrightarrow> quit p \<Longrightarrow> frees p' \<noteq> [] \<longrightarrow> quit p'"
    by blast+
qed

lemma quit_exec:
  "exec es p = Some p' \<Longrightarrow> frees p \<noteq> [] \<longrightarrow> quit p \<Longrightarrow> frees p' \<noteq> [] \<longrightarrow> quit p'"
proof (induction es arbitrary: p)
  case Nil
  then show ?case by simp
next
  case (Cons e es)
  from Cons.prems obtain q where s: "step e p = Some q" and r: "exec es q = Some p'"
    by (auto split: option.splits)
  from Cons.IH[OF r quit_step(2)[OF s Cons.prems(2)]] show ?case .
qed

section \<open>The claims\<close>

text \<open>
  C1. The claim is that every \<open>Schedule\<close> made after \<open>Free\<close> has returned
  fails with \<open>ErrWorkerPoolFreed\<close>. The code does otherwise on a pool without
  pre-allocation whose spawn loop is still receiving in line 72: \<open>Free\<close> returns at
  once, no worker existing, and the select of \<open>Schedule\<close> then finds both the closed
  \<open>p.quit\<close> and a receiver on \<open>p.tasks\<close>; taking the send, it returns nil.
\<close>

theorem Schedule_after_Free_returns_nil:
  "started 1 [] [Run_start, Free_close, Free_Wait 0, Schedule_send (Returns 0) To_run] =
     Some \<lparr>capacity = 1, preAlloc = False, block = True, active = 0, quit = True,
            wg = 0, workers = [], run_pc = R_got (Returns 0), idx = 0, returns = [],
            calls = [(Returns 0, Returned None)], frees = [F_returned], executed = []\<rparr>"
  by (simp add: started_def pool_defs)

text \<open>
  C2, as stated, fails: a second \<open>Free\<close> after the first has returned panics, since
  line 141 closes a channel that is closed already.
\<close>

theorem second_Free_panics_example:
  "started 1 [] [Free_close, Free_Wait 0, Free_close] =
     Some \<lparr>capacity = 1, preAlloc = False, block = True, active = 0, quit = True,
            wg = 0, workers = [], run_pc = R_init, idx = 0, returns = [],
            calls = [], frees = [F_returned, F_panic], executed = []\<rparr>"
  by (simp add: started_def pool_defs)

text \<open>
  C2, amended. Once \<open>Free\<close> has been called on a pool, a further call panics in
  \<open>close(p.quit)\<close> before it reaches \<open>p.wg.Wait()\<close>: the call changes nothing of
  the pool (no slot is given back, the wait group is not touched) and it is not left
  waiting, so it neither hangs nor releases anything twice; but it is not a no-op.
\<close>

theorem second_Free_panics:
  assumes "New n opts = Some p0" and "exec es p0 = Some p" and "frees p \<noteq> []"
  shows "quit p \<and>
         step Free_close p = Some (p\<lparr>frees := frees p @ [F_panic]\<rparr>) \<and>
         step (Free_Wait (length (frees p))) (p\<lparr>frees := frees p @ [F_panic]\<rparr>) = None"
proof -
  from New_fields(9)[OF assms(1)] have "frees p0 \<noteq> [] \<longrightarrow> quit p0" by simp
  from quit_exec[OF assms(2) this] assms(3) have "quit p" by simp
  then show ?thesis by simp
qed

theorem second_Free_panics_witness:
  "\<exists>p0 p. New 1 [] = Some p0 \<and> exec [Free_close, Free_Wait 0] p0 = Some p \<and>
     frees p = [F_returned] \<and> quit p \<and>
     step Free_close p = Some (p\<lparr>frees := [F_returned, F_panic]\<rparr>)"
proof -
  let ?a = "\<lparr>capacity = 1, preAlloc = False, block = True, active = 0, quit = False,
             wg = 0, workers = [], run_pc = R_init, idx = 0, returns = [], calls = [],
             frees = [], executed = []\<rparr>"
  let ?b = "\<lparr>capacity = 1, preAlloc = False, block = True, active = 0, quit = True,
             wg = 0, workers = [], run_pc = R_init, idx = 0, returns = [], calls = [],
             frees = [F_returned], executed = []\<rparr>"
  have n: "New 1 [] = Some ?a" by (simp add: pool_defs)
  have e: "exec [Free_close, Free_Wait 0] ?a = Some ?b" by (simp add: pool_defs)
  have f: "frees ?b \<noteq> []" by simp
  from second_Free_panics[OF n e f]
  have "quit ?b \<and> step Free_close ?b = Some (?b\<lparr>frees := [F_returned, F_panic]\<rparr>)"
    by simp
  with n e show ?thesis
    by (intro exI[of _ ?a] exI[of _ ?b]) simp
qed

text \<open>
  C3. The claim is that a task for which \<open>Schedule\<close> returned nil is executed. The code
  loses such a task when the spawn loop received it (line 72) and shutdown comes before a
  worker takes it over: \<open>returnTask\<close> leaves the task with a goroutine blocked in
  line 149, the spawn loop returns in line 76, and nothing is left that could receive. By
  \<open>dead_pool_exec\<close>, nothing is executed in any continuation from such a state.
\<close>

theorem accepted_task_never_executed:
  "started 1 [] [Run_start, Schedule_send (Returns 0) To_run, Free_close, Free_Wait 0,
                 Run_returnTask, Run_quit] =
     Some \<lparr>capacity = 1, preAlloc = False, block = True, active = 0, quit = True,
            wg = 0, workers = [], run_pc = R_done, idx = 0, returns = [Some (Returns 0)],
            calls = [(Returns 0, Returned None)], frees = [F_returned], executed = []\<rparr>"
  by (simp add: started_def pool_defs)

text \<open>
  C4. In every state of every execution that starts from a pool returned by \<open>New\<close>,
  the live workers are at most the occupied slots, and the occupied slots are at most the
  capacity fixed by the constructor, with and without pre-allocation. A worker is live
  while it holds its slot: from its creation until it has taken its element back out of
  \<open>p.active\<close>. The number of workers inside the constructor's own loop is the
  subject of \<open>prealloc_loop_eq\<close>.
\<close>

theorem live_workers_within_capacity:
  assumes "New n opts = Some p0" and "exec es p0 = Some p"
  shows "int (live_workers p) \<le> active p \<and> active p \<le> capacity p \<and>
         int (live_workers p) \<le> capacity p \<and>
         capacity p = (if n \<le> 0 then defaultCapacity else if maxCapacity < n then maxCapacity else n)"
proof -
  have "slots_inv p"
    using slots_inv_exec[OF slots_inv_New[OF assms(1)] assms(2)] .
  moreover have "capacity p = capacity p0"
    using capacity_exec[OF assms(2)] .
  moreover note New_fields(1)[OF assms(1)]
  ultimately show ?thesis
    by (simp only: slots_inv_def) (simp split: if_splits)
qed

theorem live_workers_within_capacity_witness:
  "\<exists>p0 p. New 1 [WithBlock False] = Some p0 \<and>
     exec [Run_start, Schedule_send (Returns 0) To_run, Run_returnTask, Run_active,
           Run_newWorker, Worker_start 0, Handoff (From_return 0) (To_worker 0),
           Schedule_send (Returns 1) To_run, Run_returnTask, Run_default] p0 = Some p \<and>
     live_workers p = 1 \<and> active p = 1 \<and> capacity p = 1 \<and> int (live_workers p) \<le> capacity p"
proof -
  let ?init = "\<lparr>capacity = 1, preAlloc = False, block = False, active = 0, quit = False,
               wg = 0, workers = [], run_pc = R_init,
               idx = 0, returns = [], calls = [], frees = [], executed = []\<rparr>"
  let ?p = "\<lparr>capacity = 1, preAlloc = False, block = False, active = 1, quit = False,
               wg = 1, workers = [(1, W_call (Returns 0))], run_pc = R_loop,
               idx = 1, returns = [None, Some (Returns 1)],
               calls = [(Returns 0, Returned None), (Returns 1, Returned None)],
               frees = [], executed = []\<rparr>"
  have n: "New 1 [WithBlock False] = Some ?init"
    by (simp add: pool_defs)
  have e: "exec [Run_start, Schedule_send (Returns 0) To_run, Run_returnTask, Run_active,
           Run_newWorker, Worker_start 0, Handoff (From_return 0) (To_worker 0),
           Schedule_send (Returns 1) To_run, Run_returnTask, Run_default] ?init = Some ?p"
    by (simp add: pool_defs)
  from live_workers_within_capacity[OF n e] have b: "int (live_workers ?p) \<le> capacity ?p"
    by blast
  have l: "live_workers ?p = 1 \<and> active ?p = 1 \<and> capacity ?p = 1"
    by (simp add: live_workers_def)
  from n e l b show ?thesis by blast
qed

text \<open>
  C5. In every execution, worker \<open>i\<close> has taken its element out of \<open>p.active\<close>
  exactly once if it is past its exit, and never otherwise. On both exit paths, after the
  quit case (line 114) and after a recovered panic (line 105), that receive can proceed
  and gives back exactly one slot. A task that panics moves its worker to the deferred
  function and changes nothing else: no other worker, not the slots, the wait group, the
  quit channel, the spawn loop or any caller. The occupied slots are at all times the live
  workers, plus one while the spawn loop is between its send and \<open>newWorker\<close>.
\<close>

theorem slot_released_exactly_once:
  assumes "New n opts = Some p0" and "exec es p0 = Some p"
  shows "count_list es (Worker_release i) = (if released p i then 1 else 0) \<and>
    (worker_pc p i = Some W_exit \<or> worker_pc p i = Some W_recover \<longrightarrow>
       (\<exists>p'. step (Worker_release i) p = Some p' \<and> active p' = active p - 1 \<and>
          worker_pc p' i = Some W_done \<and> (\<forall>j. j \<noteq> i \<longrightarrow> worker_pc p' j = worker_pc p j))) \<and>
    (\<forall>k. worker_pc p i = Some (W_call (Panics k)) \<longrightarrow>
       (\<exists>p'. step (Worker_call i) p = Some p' \<and> worker_pc p' i = Some W_recover \<and>
          (\<forall>j. j \<noteq> i \<longrightarrow> worker_pc p' j = worker_pc p j) \<and>
          active p' = active p \<and> wg p' = wg p \<and> quit p' = quit p \<and> run_pc p' = run_pc p \<and>
          calls p' = calls p \<and> frees p' = frees p \<and> returns p' = returns p)) \<and>
    active p = int (live_workers p) + (if spawning p then 1 else 0)"
proof -
  have inv: "slots_inv p"
    using slots_inv_exec[OF slots_inv_New[OF assms(1)] assms(2)] .
  have 1: "count_list es (Worker_release i) = (if released p i then 1 else 0)"
    using released_exec[OF assms(2), of i] New_not_released[OF assms(1), of i] by simp
  have 2: "\<exists>p'. step (Worker_release i) p = Some p' \<and> active p' = active p - 1 \<and>
          worker_pc p' i = Some W_done \<and> (\<forall>j. j \<noteq> i \<longrightarrow> worker_pc p' j = worker_pc p j)"
    if w: "worker_pc p i = Some W_exit \<or> worker_pc p i = Some W_recover"
  proof -
    from w obtain c where c: "worker_pc p i = Some c" "holds_slot c" by auto
    from live_workers_pos[OF c] inv have "0 < active p"
      by (simp add: slots_inv_def)
    with w worker_pc_Some[OF c(1)] show ?thesis
      by (auto simp: recv_active_def worker_pc_set_worker)
  qed
  have 3: "\<exists>p'. step (Worker_call i) p = Some p' \<and> worker_pc p' i = Some W_recover \<and>
          (\<forall>j. j \<noteq> i \<longrightarrow> worker_pc p' j = worker_pc p j) \<and>
          active p' = active p \<and> wg p' = wg p \<and> quit p' = quit p \<and> run_pc p' = run_pc p \<and>
          calls p' = calls p \<and> frees p' = frees p \<and> returns p' = returns p"
    if w: "worker_pc p i = Some (W_call (Panics k))" for k
    using w worker_pc_Some[OF w] by (simp add: worker_pc_set_worker)
  from 1 2 3 inv show ?thesis
    by (simp add: slots_inv_def)
qed

theorem slot_released_exactly_once_witness:
  "\<exists>p0 p1 p2 p3.
     New 1 [] = Some p0 \<and>
     exec [Run_start, Schedule_send (Panics 0) To_run, Run_returnTask, Run_active,
           Run_newWorker, Worker_start 0, Handoff (From_return 0) (To_worker 0)] p0 = Some p1 \<and>
     worker_pc p1 0 = Some (W_call (Panics 0)) \<and>
     step (Worker_call 0) p1 = Some p2 \<and> worker_pc p2 0 = Some W_recover \<and> active p2 = 1 \<and>
     step (Worker_release 0) p2 = Some p3 \<and> worker_pc p3 0 = Some W_done \<and> active p3 = 0 \<and>
     count_list [Run_start, Schedule_send (Panics 0) To_run, Run_returnTask, Run_active,
           Run_newWorker, Worker_start 0, Handoff (From_return 0) (To_worker 0),
           Worker_call 0, Worker_release 0] (Worker_release 0) = 1"
proof -
  let ?a = "\<lparr>capacity = 1, preAlloc = False, block = True, active = 0, quit = False,
             wg = 0, workers = [], run_pc = R_init, idx = 0, returns = [], calls = [],
             frees = [], executed = []\<rparr>"
  let ?b = "\<lparr>capacity = 1, preAlloc = False, block = True, active = 1, quit = False,
             wg = 1, workers = [(1, W_call (Panics 0))], run_pc = R_range, idx = 1,
             returns = [None], calls = [(Panics 0, Returned None)],
             frees = [], executed = []\<rparr>"
  let ?c = "\<lparr>capacity = 1, preAlloc = False, block = True, active = 1, quit = False,
             wg = 1, workers = [(1, W_recover)], run_pc = R_range, idx = 1,
             returns = [None], calls = [(Panics 0, Returned None)],
             frees = [], executed = [Panics 0]\<rparr>"
  let ?d = "\<lparr>capacity = 1, preAlloc = False, block = True, active = 0, quit = False,
             wg = 1, workers = [(1, W_done)], run_pc = R_range, idx = 1,
             returns = [None], calls = [(Panics 0, Returned None)],
             frees = [], executed = [Panics 0]\<rparr>"
  let ?es = "[Run_start, Schedule_send (Panics 0) To_run, Run_returnTask, Run_active,
           Run_newWorker, Worker_start 0, Handoff (From_return 0) (To_worker 0)]"
  have n: "New 1 [] = Some ?a" by (simp add: pool_defs)
  have e1: "exec ?es ?a = Some ?b" by (simp add: pool_defs)
  have e2: "exec (?es @ [Worker_call 0]) ?a = Some ?c" by (simp add: pool_defs)
  have e3: "exec (?es @ [Worker_call 0, Worker_release 0]) ?a = Some ?d" by (simp add: pool_defs)
  have w1: "worker_pc ?b 0 = Some (W_call (Panics 0))" by (simp add: worker_pc_def)
  have w2: "worker_pc ?c 0 = Some W_recover" by (simp add: worker_pc_def)
  have w3: "worker_pc ?d 0 = Some W_done" by (simp add: worker_pc_def)
  from slot_released_exactly_once[OF n e1, of 0] w1
  have s1: "\<exists>p'. step (Worker_call 0) ?b = Some p' \<and> worker_pc p' 0 = Some W_recover \<and>
      active p' = active ?b"
    by blast
  from slot_released_exactly_once[OF n e2, of 0] w2
  have s2: "\<exists>p'. step (Worker_release 0) ?c = Some p' \<and> active p' = active ?c - 1 \<and>
      worker_pc p' 0 = Some W_done"
    by blast
  from slot_released_exactly_once[OF n e3, of 0] w3
  have s3: "count_list (?es @ [Worker_call 0, Worker_release 0]) (Worker_release 0) = 1"
    by (simp add: released_def)
  have t2: "step (Worker_call 0) ?b = Some ?c" by (simp add: pool_defs)
  have t3: "step (Worker_release 0) ?c = Some ?d" by (simp add: pool_defs)
  from s3 have s3': "count_list [Run_start, Schedule_send (Panics 0) To_run, Run_returnTask,
      Run_active, Run_newWorker, Worker_start 0, Handoff (From_return 0) (To_worker 0),
      Worker_call 0, Worker_release 0] (Worker_release 0) = 1"
    by simp
  show ?thesis
    apply (rule exI[of _ ?a], rule exI[of _ ?b], rule exI[of _ ?c], rule exI[of _ ?d])
    using n e1 w1 t2 w2 t3 w3 s3' apply simp
    done
qed

text \<open>
  C6. The claim is that no worker is spawned once \<open>p.quit\<close> is closed. In the code
  both selects of the spawn loop (lines 74 and 87) may take the case that sends on
  \<open>p.active\<close> while \<open>p.quit\<close> is closed, and then create a worker, even after
  \<open>Free\<close> has returned: first on a pool without pre-allocation, then on a
  pre-allocated pool whose spawn loop starts late.
\<close>

theorem worker_spawned_after_quit:
  "started 1 [] [Run_start, Schedule_send (Returns 0) To_run, Run_returnTask, Free_close,
                 Free_Wait 0, Run_active, Run_newWorker] =
     Some \<lparr>capacity = 1, preAlloc = False, block = True, active = 1, quit = True,
            wg = 1, workers = [(1, W_start)], run_pc = R_range, idx = 1,
            returns = [Some (Returns 0)], calls = [(Returns 0, Returned None)],
            frees = [F_returned], executed = []\<rparr> \<and>
   started 1 [WithPreAllocWorkers True]
       [Worker_start 0, Free_close, Worker_quit 0, Worker_release 0, Worker_Done 0,
        Free_Wait 0, Run_start, Run_active, Run_newWorker] =
     Some \<lparr>capacity = 1, preAlloc = True, block = True, active = 1, quit = True,
            wg = 1, workers = [(1, W_dead), (1, W_start)], run_pc = R_loop, idx = 1,
            returns = [], calls = [], frees = [F_returned], executed = []\<rparr>"
  by (simp add: started_def pool_defs prealloc_loop.simps)




text \<open>
  C8. A pool built with pre-allocation on has, in the state \<open>New\<close> returns, exactly
  as many workers as its capacity, created by the constructor itself with the indices
  1 up to the capacity, and every slot of \<open>p.active\<close> taken; no task has been submitted
  or executed and the spawn loop has not taken a step.
\<close>

theorem New_preAlloc_workers:
  assumes "New n opts = Some p" and "preAlloc p"
  shows "workers p = map (\<lambda>k. (k, W_start)) [1..capacity p] \<and>
         int (length (workers p)) = capacity p \<and>
         int (live_workers p) = capacity p \<and>
         active p = capacity p \<and> wg p = capacity p \<and>
         run_pc p = R_init \<and> calls p = [] \<and> executed p = []"
proof -
  have f: "filter (\<lambda>w. holds_slot (snd w)) (map (\<lambda>k. (k, W_start)) xs) = map (\<lambda>k. (k, W_start)) xs"
    for xs :: "int list"
    by (induction xs) simp_all
  from New_capacity_pos[OF assms(1)] New_fields[OF assms(1)] assms(2) show ?thesis
    by (simp add: live_workers_def f)
qed

theorem New_preAlloc_workers_witness:
  "\<exists>p. New 3 [WithPreAllocWorkers True] = Some p \<and> preAlloc p \<and>
     workers p = [(1, W_start), (2, W_start), (3, W_start)] \<and> active p = 3 \<and> wg p = 3"
proof -
  let ?p = "\<lparr>capacity = 3, preAlloc = True, block = True, active = 3, quit = False,
               wg = 3, workers = [(1, W_start), (2, W_start), (3, W_start)], run_pc = R_init,
               idx = 0, returns = [], calls = [], frees = [], executed = []\<rparr>"
  have n: "New 3 [WithPreAllocWorkers True] = Some ?p"
    by (simp add: pool_defs prealloc_loop.simps)
  have a: "preAlloc ?p" by simp
  from New_preAlloc_workers[OF n a] n show ?thesis
    by (simp add: upto_rec1)
qed

text \<open>
  C9. \<open>New\<close> has no error result and always returns a pool, whatever capacity is asked
  for; the stored capacity is the default 100 when the request is zero or negative, the
  maximum 10000 when the request is above it, and the request itself otherwise.
\<close>

theorem New_clamps_capacity:
  "defaultCapacity = 100 \<and> maxCapacity = 10000 \<and>
   (\<exists>p. New n opts = Some p \<and>
      capacity p = (if n \<le> 0 then 100 else if 10000 < n then 10000 else n))"
proof -
  obtain p where p: "New n opts = Some p" using New_returns by blast
  from New_fields(1)[OF p] p show ?thesis
    by (auto simp: defaultCapacity_def maxCapacity_def)
qed

text \<open>
  C10, as stated, fails in its last part: a caller blocked in line 132 when \<open>Free\<close>
  closes \<open>p.quit\<close> need not stay blocked. A worker that comes back to its select may
  take the task case though \<open>p.quit\<close> is closed, and the call returns nil.
\<close>

theorem blocked_Schedule_unblocked_after_close:
  "started 1 [WithPreAllocWorkers True]
       [Worker_start 0, Schedule_send (Returns 0) (To_worker 0), Schedule_default (Returns 1),
        Free_close] =
     Some \<lparr>capacity = 1, preAlloc = True, block = True, active = 1, quit = True,
            wg = 1, workers = [(1, W_call (Returns 0))], run_pc = R_init, idx = 0,
            returns = [], calls = [(Returns 0, Returned None), (Returns 1, Blocked)],
            frees = [F_wait], executed = []\<rparr> \<and>
   started 1 [WithPreAllocWorkers True]
       [Worker_start 0, Schedule_send (Returns 0) (To_worker 0), Schedule_default (Returns 1),
        Free_close, Worker_call 0, Handoff (From_call 1) (To_worker 0)] =
     Some \<lparr>capacity = 1, preAlloc = True, block = True, active = 1, quit = True,
            wg = 1, workers = [(1, W_call (Returns 1))], run_pc = R_init, idx = 0,
            returns = [], calls = [(Returns 0, Returned None), (Returns 1, Returned None)],
            frees = [F_wait], executed = [Returns 0]\<rparr>"
  by (simp add: started_def pool_defs prealloc_loop.simps)

text \<open>
  C10, amended. A call blocked in the send of line 132 can only return nil, never
  \<open>ErrWorkerPoolFreed\<close>: it stays blocked until a receiver takes its send. \<open>Free\<close>
  neither unblocks it nor waits for it (\<open>p.wg.Wait()\<close> looks at the wait group alone),
  and once the spawn loop and all workers have finished the call stays blocked for ever.
\<close>

theorem blocked_Schedule_only_nil:
  assumes "c < length (calls p)" and "calls p ! c = (t, Blocked)"
  shows "(\<forall>es p'. exec es p = Some p' \<longrightarrow>
            calls p' ! c =
              (t, if \<exists>r. Handoff (From_call c) r \<in> set es then Returned None else Blocked)) \<and>
         (\<forall>p'. step Free_close p = Some p' \<longrightarrow> calls p' ! c = (t, Blocked)) \<and>
         (\<forall>k p'. step (Free_Wait k) p = Some p' \<longrightarrow> calls p' ! c = (t, Blocked)) \<and>
         (\<forall>k. step (Free_Wait k) p \<noteq> None \<longleftrightarrow>
                k < length (frees p) \<and> frees p ! k = F_wait \<and> wg p = 0) \<and>
         (dead_pool p \<longrightarrow> (\<forall>es p'. exec es p = Some p' \<longrightarrow> calls p' ! c = (t, Blocked)))"
proof -
  have b: "snd (calls p ! c) = Blocked" "fst (calls p ! c) = t" using assms(2) by simp_all
  have 1: "calls p' ! c =
      (t, if \<exists>r. Handoff (From_call c) r \<in> set es then Returned None else Blocked)"
    if e: "exec es p = Some p'" for es p'
    using blocked_exec[OF e assms(1) b(1)] b(2) by simp
  have 2: "calls p' ! c = (t, Blocked)" if e: "step Free_close p = Some p'" for p'
    using 1[of "[Free_close]" p'] e by simp
  have 3: "calls p' ! c = (t, Blocked)" if e: "step (Free_Wait k) p = Some p'" for k p'
    using 1[of "[Free_Wait k]" p'] e by simp
  have 5: "calls p' ! c = (t, Blocked)" if d: "dead_pool p" and e: "exec es p = Some p'"
    for es p'
  proof -
    from dead_pool_exec[OF d e] have "\<not> (\<exists>r. Handoff (From_call c) r \<in> set es)" by blast
    with 1[OF e] show ?thesis by simp
  qed
  from 1 2 3 5 show ?thesis by auto
qed

theorem blocked_Schedule_only_nil_witness:
  "\<exists>p p'.
     started 1 [WithPreAllocWorkers True]
       [Worker_start 0, Schedule_send (Returns 0) (To_worker 0), Schedule_default (Returns 1),
        Free_close, Worker_call 0, Worker_quit 0, Worker_release 0, Worker_Done 0,
        Free_Wait 0, Run_start, Run_quit] = Some p \<and>
     calls p ! 1 = (Returns 1, Blocked) \<and> frees p = [F_returned] \<and> dead_pool p \<and>
     exec [Schedule_quit (Returns 2), Free_close] p = Some p' \<and>
     calls p' ! 1 = (Returns 1, Blocked)"
proof -
  let ?a = "\<lparr>capacity = 1, preAlloc = True, block = True, active = 0, quit = True,
             wg = 0, workers = [(1, W_dead)], run_pc = R_done, idx = 0, returns = [],
             calls = [(Returns 0, Returned None), (Returns 1, Blocked)],
             frees = [F_returned], executed = [Returns 0]\<rparr>"
  let ?b = "\<lparr>capacity = 1, preAlloc = True, block = True, active = 0, quit = True,
             wg = 0, workers = [(1, W_dead)], run_pc = R_done, idx = 0, returns = [],
             calls = [(Returns 0, Returned None), (Returns 1, Blocked),
                      (Returns 2, Returned (Some ErrWorkerPoolFreed))],
             frees = [F_returned, F_panic], executed = [Returns 0]\<rparr>"
  have s: "started 1 [WithPreAllocWorkers True]
       [Worker_start 0, Schedule_send (Returns 0) (To_worker 0), Schedule_default (Returns 1),
        Free_close, Worker_call 0, Worker_quit 0, Worker_release 0, Worker_Done 0,
        Free_Wait 0, Run_start, Run_quit] = Some ?a"
    by (simp add: started_def pool_defs prealloc_loop.simps)
  have l: "1 < length (calls ?a)" and c: "calls ?a ! 1 = (Returns 1, Blocked)" by simp_all
  have d: "dead_pool ?a" by (simp add: dead_pool_def)
  have e: "exec [Schedule_quit (Returns 2), Free_close] ?a = Some ?b"
    by (simp add: pool_defs)
  from blocked_Schedule_only_nil[OF l c] d e
  have "calls ?b ! 1 = (Returns 1, Blocked)" by blast
  with s c d e show ?thesis
    by (intro exI[of _ ?a] exI[of _ ?b]) simp
qed

end
